theory Spec2Isabelle
  imports Main "HOL-Library.Sublist"
begin

section \<open>Python values and exceptions\<close>

text \<open>
  The helpers of \<^verbatim>\<open>src/utils.py\<close> and the tools of \<^verbatim>\<open>src/tools_2.py\<close> work on the
  JSON-like values the marketplace client returns: \<^verbatim>\<open>None\<close>, booleans, integers, strings,
  timestamps (the client parses \<^verbatim>\<open>startedAt\<close> into a timezone-aware \<^verbatim>\<open>datetime\<close>; an
  instant is an integer number of microseconds since the epoch), lists and dicts. A dict is
  an association list in insertion order, as Python keeps it; its keys are strings. The
  modelled code computes with no number, so integers stand for all of them.
\<close>

datatype pyval =
    PNone
  | PBool bool
  | PInt int
  | PStr string
  | PTime int
  | PList "pyval list"
  | PDict "(string \<times> pyval) list"

text \<open>
  Every \<^verbatim>\<open>raise\<close> of the source, and every exception the Python runtime raises in the
  modelled code, is a value. \<open>RemoteError\<close> carries the text of an exception raised by the
  marketplace client (transport failures), \<open>ValidationError\<close> is pydantic's.
\<close>

datatype error =
    ValueError string
  | KeyError string
  | TypeError
  | AttributeError
  | ValidationError
  | RemoteError string

text \<open>Python's truth value of an object, as \<^verbatim>\<open>if not (x := ...)\<close> tests it.\<close>

fun truthy :: "pyval \<Rightarrow> bool" where
  "truthy PNone = False"
| "truthy (PBool b) = b"
| "truthy (PInt n) = (n \<noteq> 0)"
| "truthy (PStr s) = (s \<noteq> [])"
| "truthy (PTime t) = True"
| "truthy (PList xs) = (xs \<noteq> [])"
| "truthy (PDict kvs) = (kvs \<noteq> [])"

text \<open>\<^verbatim>\<open>d.get(k)\<close> on the association list: the first binding of the key.\<close>

fun dict_get :: "(string \<times> 'v) list \<Rightarrow> string \<Rightarrow> 'v option" where
  "dict_get [] k = None"
| "dict_get ((k', v) # kvs) k = (if k' = k then Some v else dict_get kvs k)"

text \<open>
  \<^verbatim>\<open>d[k] = v\<close>: an existing key keeps its position and gets the new value, a new key is
  appended.
\<close>

fun dict_set :: "(string \<times> 'v) list \<Rightarrow> string \<Rightarrow> 'v \<Rightarrow> (string \<times> 'v) list" where
  "dict_set [] k v = [(k, v)]"
| "dict_set ((k', v') # kvs) k v =
     (if k' = k then (k, v) # kvs else (k', v') # dict_set kvs k v)"

text \<open>
  \<^verbatim>\<open>x.get(k)\<close> and \<^verbatim>\<open>x.get(k, default)\<close> on an arbitrary value: only a dict has the
  method, anything else raises \<^verbatim>\<open>AttributeError\<close>.
\<close>

fun py_get_default :: "pyval \<Rightarrow> string \<Rightarrow> pyval \<Rightarrow> error + pyval" where
  "py_get_default (PDict kvs) k d = Inr (case dict_get kvs k of None \<Rightarrow> d | Some v \<Rightarrow> v)"
| "py_get_default x k d = Inl AttributeError"

definition py_get :: "pyval \<Rightarrow> string \<Rightarrow> error + pyval" where
  "py_get x k = py_get_default x k PNone"

text \<open>
  Iterating a value (\<^verbatim>\<open>for e in x\<close>, \<^verbatim>\<open>filter(f, x)\<close>): a list yields its items, a dict its
  keys, a string its characters; the other values are not iterable.
\<close>

fun py_iter :: "pyval \<Rightarrow> error + pyval list" where
  "py_iter (PList xs) = Inr xs"
| "py_iter (PDict kvs) = Inr (map (\<lambda>kv. PStr (fst kv)) kvs)"
| "py_iter (PStr s) = Inr (map (\<lambda>c. PStr [c]) s)"
| "py_iter x = Inl TypeError"

text \<open>
  \<^verbatim>\<open>s.split(sep)\<close> with a one-character separator: the pieces between the separators, empty
  pieces included, never an empty list (\<^verbatim>\<open>''.split('/') == ['']\<close>).
\<close>

fun split_acc :: "char \<Rightarrow> string \<Rightarrow> string \<Rightarrow> string list" where
  "split_acc sep acc [] = [acc]"
| "split_acc sep acc (c # cs) =
     (if c = sep then acc # split_acc sep [] cs else split_acc sep (acc @ [c]) cs)"

definition split :: "string \<Rightarrow> char \<Rightarrow> string list" where
  "split s sep = split_acc sep [] s"

text \<open>
  \<^verbatim>\<open>s.lower()\<close>: the letters A to Z go to a to z. A string is a list of bytes here; the bytes
  of a character outside ASCII are left alone, and no such character lowers to one of the
  letters of \<^verbatim>\<open>'text'\<close>, the only string the source compares a lowered string with.
\<close>

definition lower_char :: "char \<Rightarrow> char" where
  "lower_char c =
     (case map_of (zip ''ABCDEFGHIJKLMNOPQRSTUVWXYZ'' ''abcdefghijklmnopqrstuvwxyz'') c of
        None \<Rightarrow> c
      | Some l \<Rightarrow> l)"

definition lower :: "string \<Rightarrow> string" where
  "lower s = map lower_char s"

section \<open>The marketplace client\<close>

text \<open>
  \<^verbatim>\<open>ApifyClient\<close> is the third-party client; the source only calls it. Each remote call
  the source makes is a field: it returns the decoded response, or the text of the
  exception the client raised.
  \<^item> \<open>actor_get x\<close> is \<^verbatim>\<open>apify_client.actor(x).get()\<close>: the actor's record, or \<^verbatim>\<open>None\<close>;
  \<^item> \<open>versions_list x\<close> is \<^verbatim>\<open>apify_client.actor(x).versions().list().items\<close>;
  \<^item> \<open>store_list limit offset search\<close> is
    \<^verbatim>\<open>apify_client.store().list(limit=, offset=, search=).items\<close>.
\<close>

record ApifyClient =
  actor_get :: "pyval \<Rightarrow> string + pyval"
  versions_list :: "pyval \<Rightarrow> string + pyval list"
  store_list :: "int \<Rightarrow> int \<Rightarrow> string \<Rightarrow> string + pyval list"

section \<open>utils.py\<close>

subsection \<open>get_apify_token\<close>

text \<open>The argument is \<^verbatim>\<open>os.getenv('APIFY_TOKEN')\<close>: the variable's value when it is set.\<close>

definition get_apify_token :: "string option \<Rightarrow> error + string" where
  "get_apify_token env =
     (case env of
        None \<Rightarrow> Inl (ValueError ''APIFY_TOKEN environment variable is not set'')
      | Some token \<Rightarrow>
          if token = [] then Inl (ValueError ''APIFY_TOKEN environment variable is not set'')
          else Inr token)"

subsection \<open>get_actor_id\<close>

definition get_actor_id :: "ApifyClient \<Rightarrow> string \<Rightarrow> error + pyval" where
  "get_actor_id apify_client actor_name =
     (case actor_get apify_client (PStr actor_name) of
        Inl m \<Rightarrow> Inl (RemoteError m)
      | Inr actor \<Rightarrow>
          if \<not> truthy actor then Inl (ValueError (''Actor '' @ actor_name @ '' not found.''))
          else
            (case py_get actor ''id'' of
               Inl e \<Rightarrow> Inl e
             | Inr actor_id \<Rightarrow>
                 if \<not> truthy actor_id
                 then Inl (ValueError
                        (''Failed to get the Actor object ID for '' @ actor_name @ ''.''))
                 else Inr actor_id))"

subsection \<open>generate_file_tree\<close>

text \<open>
  The tree the builder returns is a dict whose values are \<^verbatim>\<open>None\<close> (a file: \<open>Leaf\<close>) or
  again such a dict (a directory: \<open>Dir\<close>). \<open>Dir []\<close> is the empty dict \<^verbatim>\<open>{}\<close>.
\<close>

datatype ftree = Leaf | Dir "(string \<times> ftree) list"

text \<open>
  The inner loop (\<^verbatim>\<open>for i, part in enumerate(path_parts)\<close>), started with \<^verbatim>\<open>current\<close> at
  some node. The source moves \<^verbatim>\<open>current\<close> down the tree and mutates the dict it points to;
  here the walk returns the node rebuilt. No dict of the tree is shared, so the rebuilt node
  is what the mutation leaves behind.
  \<^item> Last part: \<^verbatim>\<open>current[part] = None\<close>.
  \<^item> Another part: \<^verbatim>\<open>if part not in current: current[part] = {}\<close>, then
    \<^verbatim>\<open>current = current[part]\<close> and the loop goes on from there.
  \<^item> When \<^verbatim>\<open>current\<close> is \<^verbatim>\<open>None\<close> and a part is left, both the membership test and the item
    assignment raise \<^verbatim>\<open>TypeError\<close>.
\<close>

fun add_path :: "ftree \<Rightarrow> string list \<Rightarrow> error + ftree" where
  "add_path current [] = Inr current"
| "add_path Leaf (part # rest) = Inl TypeError"
| "add_path (Dir kvs) [part] = Inr (Dir (dict_set kvs part Leaf))"
| "add_path (Dir kvs) (part # rest) =
     (case add_path (case dict_get kvs part of None \<Rightarrow> Dir [] | Some sub \<Rightarrow> sub) rest of
        Inl e \<Rightarrow> Inl e
      | Inr sub' \<Rightarrow> Inr (Dir (dict_set kvs part sub')))"

text \<open>
  \<^verbatim>\<open>file_info['name'].split('/')\<close>: a missing key raises \<^verbatim>\<open>KeyError('name')\<close>, a value that is
  not a string has no \<^verbatim>\<open>split\<close>.
\<close>

definition path_parts :: "(string \<times> pyval) list \<Rightarrow> error + string list" where
  "path_parts file_info =
     (case dict_get file_info ''name'' of
        None \<Rightarrow> Inl (KeyError ''name'')
      | Some (PStr name) \<Rightarrow> Inr (split name (CHR ''/''))
      | Some _ \<Rightarrow> Inl AttributeError)"

text \<open>The outer loop (\<^verbatim>\<open>for file_info in files\<close>) over the tree built so far.\<close>

fun build_tree :: "ftree \<Rightarrow> (string \<times> pyval) list list \<Rightarrow> error + ftree" where
  "build_tree tree [] = Inr tree"
| "build_tree tree (file_info # files) =
     (case path_parts file_info of
        Inl e \<Rightarrow> Inl e
      | Inr parts \<Rightarrow>
          (case add_path tree parts of
             Inl e \<Rightarrow> Inl e
           | Inr tree' \<Rightarrow> build_tree tree' files))"

definition generate_file_tree :: "(string \<times> pyval) list list \<Rightarrow> error + ftree" where
  "generate_file_tree files = build_tree (Dir []) files"

subsection \<open>get_actor_source_files\<close>

text \<open>
  \<^verbatim>\<open>next(filter(lambda x: x.get('buildTag') == 'latest', versions), None)\<close>: the first
  version with the tag, \<^verbatim>\<open>None\<close> when there is none. The filter is lazy: the versions
  after the first match are not looked at.
\<close>

fun next_latest :: "pyval list \<Rightarrow> error + pyval" where
  "next_latest [] = Inr PNone"
| "next_latest (x # versions) =
     (case py_get x ''buildTag'' of
        Inl e \<Rightarrow> Inl e
      | Inr tag \<Rightarrow> if tag = PStr ''latest'' then Inr x else next_latest versions)"

text \<open>\<^verbatim>\<open>x.get('format', '').lower() == 'text'\<close>\<close>

definition is_text_format :: "pyval \<Rightarrow> error + bool" where
  "is_text_format x =
     (case py_get_default x ''format'' (PStr []) of
        Inl e \<Rightarrow> Inl e
      | Inr (PStr s) \<Rightarrow> Inr (lower s = ''text'')
      | Inr _ \<Rightarrow> Inl AttributeError)"

text \<open>\<^verbatim>\<open>list(filter(lambda x: ..., source_files))\<close>: the first exception in list order wins.\<close>

fun text_source_files :: "pyval list \<Rightarrow> error + pyval list" where
  "text_source_files [] = Inr []"
| "text_source_files (x # source_files) =
     (case is_text_format x of
        Inl e \<Rightarrow> Inl e
      | Inr keep \<Rightarrow>
          (case text_source_files source_files of
             Inl e \<Rightarrow> Inl e
           | Inr rest \<Rightarrow> Inr (if keep then x # rest else rest)))"

definition get_actor_source_files :: "ApifyClient \<Rightarrow> string \<Rightarrow> error + pyval list" where
  "get_actor_source_files apify_client actor_name =
     (case get_actor_id apify_client actor_name of
        Inl e \<Rightarrow> Inl e
      | Inr actor_id \<Rightarrow>
          (case versions_list apify_client actor_id of
             Inl m \<Rightarrow> Inl (RemoteError m)
           | Inr versions \<Rightarrow>
               (case next_latest versions of
                  Inl e \<Rightarrow> Inl e
                | Inr version \<Rightarrow>
                    if \<not> truthy version then Inr []
                    else
                      (case py_get version ''sourceFiles'' of
                         Inl e \<Rightarrow> Inl e
                       | Inr source_files \<Rightarrow>
                           (case py_iter source_files of
                              Inl e \<Rightarrow> Inl e
                            | Inr xs \<Rightarrow> text_source_files xs)))))"

section \<open>tools_2.py\<close>

subsection \<open>tool_get_actor_pricing_information\<close>

text \<open>
  \<^verbatim>\<open>x > datetime.datetime.now(datetime.timezone.utc)\<close>: only a timestamp compares with a
  timestamp, anything else (also \<^verbatim>\<open>None\<close>, for a missing \<^verbatim>\<open>startedAt\<close>) raises \<^verbatim>\<open>TypeError\<close>.
\<close>

fun py_after :: "pyval \<Rightarrow> int \<Rightarrow> error + bool" where
  "py_after (PTime t) now = Inr (now < t)"
| "py_after x now = Inl TypeError"

text \<open>
  The loop over \<^verbatim>\<open>pricing_info\<close>. The source reads the clock anew in every iteration:
  \<open>clock k\<close> is the reading of the \<open>k\<close>-th call of \<^verbatim>\<open>datetime.now\<close>.
\<close>

fun select_pricing :: "(nat \<Rightarrow> int) \<Rightarrow> nat \<Rightarrow> pyval \<Rightarrow> pyval list \<Rightarrow> error + pyval" where
  "select_pricing clock k current_pricing [] = Inr current_pricing"
| "select_pricing clock k current_pricing (pricing_entry # rest) =
     (case py_get pricing_entry ''startedAt'' of
        Inl e \<Rightarrow> Inl e
      | Inr started \<Rightarrow>
          (case py_after started (clock k) of
             Inl e \<Rightarrow> Inl e
           | Inr after \<Rightarrow>
               if after then Inr current_pricing
               else select_pricing clock (Suc k) pricing_entry rest))"

text \<open>
  \<^verbatim>\<open>PricingInfo\<close> (\<^verbatim>\<open>src/models.py\<close>) is not among the sources: its \<^verbatim>\<open>model_validate\<close> is the
  parameter \<open>model_validate\<close>. \<open>env\<close> is the value of \<^verbatim>\<open>APIFY_TOKEN\<close> and \<open>new_client\<close> is
  \<^verbatim>\<open>ApifyClient(token=...)\<close>.
\<close>

definition tool_get_actor_pricing_information ::
  "(pyval \<Rightarrow> error + 'p) \<Rightarrow> string option \<Rightarrow> (string \<Rightarrow> ApifyClient) \<Rightarrow> (nat \<Rightarrow> int) \<Rightarrow>
   string \<Rightarrow> error + 'p" where
  "tool_get_actor_pricing_information model_validate env new_client clock actor_id =
     (case get_apify_token env of
        Inl e \<Rightarrow> Inl e
      | Inr token \<Rightarrow>
          (case actor_get (new_client token) (PStr actor_id) of
             Inl m \<Rightarrow> Inl (RemoteError m)
           | Inr actor \<Rightarrow>
               if \<not> truthy actor then Inl (ValueError (''Actor '' @ actor_id @ '' not found.''))
               else
                 (case py_get actor ''pricingInfos'' of
                    Inl e \<Rightarrow> Inl e
                  | Inr pricing_info \<Rightarrow>
                      if \<not> truthy pricing_info
                      then Inl (ValueError
                             (''Failed to find pricing information for the Actor '' @
                              actor_id @ ''.''))
                      else
                        (case py_iter pricing_info of
                           Inl e \<Rightarrow> Inl e
                         | Inr entries \<Rightarrow>
                             (case select_pricing clock 0 PNone entries of
                                Inl e \<Rightarrow> Inl e
                              | Inr current_pricing \<Rightarrow> model_validate current_pricing)))))"

subsection \<open>SearchRelatedActorsInput and SearchRelatedActorsTool\<close>

text \<open>
  The input schema is a pydantic model: \<^verbatim>\<open>search\<close> is required, \<^verbatim>\<open>limit\<close> defaults to 10 and
  carries \<^verbatim>\<open>gt=0, le=100\<close>, \<^verbatim>\<open>offset\<close> defaults to 0 and carries \<^verbatim>\<open>ge=0\<close>. Validation takes
  the keyword arguments as given (\<open>None\<close>: the argument is absent); a constraint is checked
  on a given value, a default is taken as it is.
\<close>

record SearchRelatedActorsInput =
  search :: string
  limit :: int
  offset :: int

definition SearchRelatedActorsInput_validate ::
  "string option \<Rightarrow> int option \<Rightarrow> int option \<Rightarrow> error + SearchRelatedActorsInput" where
  "SearchRelatedActorsInput_validate search_arg limit_arg offset_arg =
     (case search_arg of
        None \<Rightarrow> Inl ValidationError
      | Some s \<Rightarrow>
          if (case limit_arg of None \<Rightarrow> True | Some l \<Rightarrow> 0 < l \<and> l \<le> 100) \<and>
             (case offset_arg of None \<Rightarrow> True | Some k \<Rightarrow> 0 \<le> k)
          then Inr \<lparr>search = s,
                    limit = (case limit_arg of None \<Rightarrow> 10 | Some l \<Rightarrow> l),
                    offset = (case offset_arg of None \<Rightarrow> 0 | Some k \<Rightarrow> k)\<rparr>
          else Inl ValidationError)"

text \<open>
  \<^verbatim>\<open>str(e)\<close> of a caught exception. The texts of the runtime's own exceptions are not
  modelled; \<^verbatim>\<open>_run\<close> applies this to the token accessor's \<^verbatim>\<open>ValueError\<close> only.
\<close>

fun exception_text :: "error \<Rightarrow> string" where
  "exception_text (ValueError m) = m"
| "exception_text (RemoteError m) = m"
| "exception_text e = []"

text \<open>
  \<^verbatim>\<open>SearchRelatedActorsTool._run\<close>: whatever is raised inside the \<^verbatim>\<open>try\<close> block (the token
  accessor's error, an exception of the client) is re-raised as a \<^verbatim>\<open>ValueError\<close> that quotes the
  search string. \<^verbatim>\<open>ActorStoreList\<close> (\<^verbatim>\<open>src/models.py\<close>) is not among the sources: its
  \<^verbatim>\<open>model_validate\<close> is the parameter. The method itself checks neither \<^verbatim>\<open>limit\<close> nor
  \<^verbatim>\<open>offset\<close>.
\<close>

definition SearchRelatedActorsTool_run ::
  "(pyval \<Rightarrow> error + 'r) \<Rightarrow> string option \<Rightarrow> (string \<Rightarrow> ApifyClient) \<Rightarrow>
   string \<Rightarrow> int \<Rightarrow> int \<Rightarrow> error + 'r" where
  "SearchRelatedActorsTool_run model_validate env new_client search_arg limit_arg offset_arg =
     (case get_apify_token env of
        Inl e \<Rightarrow>
          Inl (ValueError (''Failed to search for Actors related to '' @ [CHR 0x27] @
                 search_arg @ [CHR 0x27] @ '': '' @ exception_text e))
      | Inr token \<Rightarrow>
          (case store_list (new_client token) limit_arg offset_arg search_arg of
             Inl m \<Rightarrow>
               Inl (ValueError (''Failed to search for Actors related to '' @ [CHR 0x27] @
                      search_arg @ [CHR 0x27] @ '': '' @ m))
           | Inr search_results \<Rightarrow> model_validate (PList search_results)))"

section \<open>Notions the specification uses\<close>

text \<open>
  The node a sequence of keys leads to, from the root: \<^verbatim>\<open>tree[k1][k2]...\<close>, \<open>None\<close> when a key
  is missing or the walk would have to enter a leaf.
\<close>

fun lookup_path :: "ftree \<Rightarrow> string list \<Rightarrow> ftree option" where
  "lookup_path t [] = Some t"
| "lookup_path Leaf (k # ks) = None"
| "lookup_path (Dir kvs) (k # ks) =
     (case dict_get kvs k of None \<Rightarrow> None | Some sub \<Rightarrow> lookup_path sub ks)"

text \<open>The branches of a tree: the key sequences from the root to each leaf marker.\<close>

fun leaf_paths :: "ftree \<Rightarrow> string list list"
  and leaf_paths_list :: "(string \<times> ftree) list \<Rightarrow> string list list" where
  "leaf_paths Leaf = [[]]"
| "leaf_paths (Dir kvs) = leaf_paths_list kvs"
| "leaf_paths_list [] = []"
| "leaf_paths_list ((k, v) # kvs) = map ((#) k) (leaf_paths v) @ leaf_paths_list kvs"

text \<open>The number of leaf entries of a tree.\<close>

fun leaf_count :: "ftree \<Rightarrow> nat"
  and leaf_count_list :: "(string \<times> ftree) list \<Rightarrow> nat" where
  "leaf_count Leaf = 1"
| "leaf_count (Dir kvs) = leaf_count_list kvs"
| "leaf_count_list [] = 0"
| "leaf_count_list ((k, v) # kvs) = leaf_count v + leaf_count_list kvs"

text \<open>A Python dict has each key once: the invariant of every level of a tree.\<close>

fun unique_keys :: "ftree \<Rightarrow> bool"
  and unique_keys_list :: "(string \<times> ftree) list \<Rightarrow> bool" where
  "unique_keys Leaf = True"
| "unique_keys (Dir kvs) = (distinct (map fst kvs) \<and> unique_keys_list kvs)"
| "unique_keys_list [] = True"
| "unique_keys_list ((k, v) # kvs) = (unique_keys v \<and> unique_keys_list kvs)"

text \<open>No directory is empty: every walk down the tree ends at a leaf marker.\<close>

fun populated :: "ftree \<Rightarrow> bool"
  and populated_list :: "(string \<times> ftree) list \<Rightarrow> bool" where
  "populated Leaf = True"
| "populated (Dir kvs) = (kvs \<noteq> [] \<and> populated_list kvs)"
| "populated_list [] = True"
| "populated_list ((k, v) # kvs) = (populated v \<and> populated_list kvs)"

text \<open>No path of the list continues another one below its last segment.\<close>

definition prefix_free :: "string list list \<Rightarrow> bool" where
  "prefix_free ps = (\<forall>p\<in>set ps. \<forall>q\<in>set ps. \<not> strict_prefix p q)"

text \<open>The record is a dict whose \<^verbatim>\<open>format\<close> is a string equal to \<^verbatim>\<open>text\<close>, letter case aside.\<close>

definition has_text_format :: "pyval \<Rightarrow> bool" where
  "has_text_format f =
     (case f of
        PDict kvs \<Rightarrow>
          (case dict_get kvs ''format'' of Some (PStr s) \<Rightarrow> lower s = ''text'' | _ \<Rightarrow> False)
      | _ \<Rightarrow> False)"

section \<open>The identifier resolver and the source-file retrieval\<close>

lemma sublist_mid: "sublist n (a @ n @ b)"
  unfolding sublist_def by blast

text \<open>
  Claim C8. When the remote lookup returns no record (\<^verbatim>\<open>None\<close>), \<open>get_actor_id\<close> fails with
  the not-found \<^verbatim>\<open>ValueError\<close>, and the actor name is part of its message. When the lookup
  returns a record without the \<^verbatim>\<open>id\<close> field, it fails with a \<^verbatim>\<open>ValueError\<close> whose message
  again contains the name used: the failed-to-get-the-ID message, or the not-found one when
  the record is the empty dict (which Python takes for false).
\<close>

theorem get_actor_id_errors_name_actor:
  "(actor_get apify_client (PStr actor_name) = Inr PNone \<longrightarrow>
      get_actor_id apify_client actor_name =
        Inl (ValueError (''Actor '' @ actor_name @ '' not found.'')) \<and>
      sublist actor_name (''Actor '' @ actor_name @ '' not found.'')) \<and>
   (actor_get apify_client (PStr actor_name) = Inr (PDict kvs) \<and> dict_get kvs ''id'' = None \<longrightarrow>
      get_actor_id apify_client actor_name =
        Inl (ValueError
          (if kvs = [] then ''Actor '' @ actor_name @ '' not found.''
           else ''Failed to get the Actor object ID for '' @ actor_name @ ''.'')) \<and>
      sublist actor_name
          (if kvs = [] then ''Actor '' @ actor_name @ '' not found.''
           else ''Failed to get the Actor object ID for '' @ actor_name @ ''.''))"
proof -
  have a: "sublist actor_name (''Actor '' @ actor_name @ '' not found.'')"
    by (rule sublist_mid)
  have b: "sublist actor_name (''Failed to get the Actor object ID for '' @ actor_name @ ''.'')"
    by (rule sublist_mid)
  show ?thesis
    using a b by (simp add: get_actor_id_def py_get_def)
qed

theorem get_actor_id_errors_name_actor_witness:
  "get_actor_id \<lparr>actor_get = (\<lambda>x. Inr PNone), versions_list = (\<lambda>x. Inr []),
                 store_list = (\<lambda>l k s. Inr [])\<rparr> ''apify/web-scraper'' =
     Inl (ValueError ''Actor apify/web-scraper not found.'') \<and>
   get_actor_id \<lparr>actor_get = (\<lambda>x. Inr (PDict [(''name'', PStr ''web-scraper'')])),
                 versions_list = (\<lambda>x. Inr []), store_list = (\<lambda>l k s. Inr [])\<rparr>
       ''apify/web-scraper'' =
     Inl (ValueError ''Failed to get the Actor object ID for apify/web-scraper.'')"
  using get_actor_id_errors_name_actor
          [of "\<lparr>actor_get = (\<lambda>x. Inr PNone), versions_list = (\<lambda>x. Inr []),
                 store_list = (\<lambda>l k s. Inr [])\<rparr>" "''apify/web-scraper''"]
        get_actor_id_errors_name_actor
          [of "\<lparr>actor_get = (\<lambda>x. Inr (PDict [(''name'', PStr ''web-scraper'')])),
                 versions_list = (\<lambda>x. Inr []), store_list = (\<lambda>l k s. Inr [])\<rparr>"
              "''apify/web-scraper''" "[(''name'', PStr ''web-scraper'')]"]
  by simp

lemma next_latest_none:
  "\<forall>v\<in>set versions. \<exists>kvs. v = PDict kvs \<and> dict_get kvs ''buildTag'' \<noteq> Some (PStr ''latest'')
   \<Longrightarrow> next_latest versions = Inr PNone"
  by (induction versions) (auto simp: py_get_def split: option.splits)

text \<open>
  Claim C7. When the actor is resolved, its version list is fetched and no version of the
  list carries the build tag \<^verbatim>\<open>latest\<close>, \<open>get_actor_source_files\<close> returns the empty list; it
  raises nothing.
\<close>

theorem no_latest_version_gives_empty_list:
  assumes "get_actor_id apify_client actor_name = Inr actor_id"
      and "versions_list apify_client actor_id = Inr versions"
      and "\<forall>v\<in>set versions. \<exists>kvs. v = PDict kvs \<and> dict_get kvs ''buildTag'' \<noteq> Some (PStr ''latest'')"
  shows "get_actor_source_files apify_client actor_name = Inr []"
  using assms by (simp add: get_actor_source_files_def next_latest_none)

theorem no_latest_version_gives_empty_list_witness:
  "get_actor_source_files
     \<lparr>actor_get = (\<lambda>x. Inr (PDict [(''id'', PStr ''abc123'')])),
      versions_list = (\<lambda>x. Inr [PDict [(''versionNumber'', PStr ''0.1''),
                                       (''buildTag'', PStr ''beta'')],
                                PDict [(''versionNumber'', PStr ''0.2'')]]),
      store_list = (\<lambda>l k s. Inr [])\<rparr> ''apify/web-scraper'' = Inr []"
proof -
  let ?c = "\<lparr>actor_get = (\<lambda>x. Inr (PDict [(''id'', PStr ''abc123'')])),
      versions_list = (\<lambda>x. Inr [PDict [(''versionNumber'', PStr ''0.1''),
                                       (''buildTag'', PStr ''beta'')],
                                PDict [(''versionNumber'', PStr ''0.2'')]]),
      store_list = (\<lambda>l k s. Inr [])\<rparr>"
  have 1: "get_actor_id ?c ''apify/web-scraper'' = Inr (PStr ''abc123'')"
    by (simp add: get_actor_id_def py_get_def)
  have 2: "versions_list ?c (PStr ''abc123'') =
             Inr [PDict [(''versionNumber'', PStr ''0.1''), (''buildTag'', PStr ''beta'')],
                  PDict [(''versionNumber'', PStr ''0.2'')]]"
    by simp
  have 3: "\<forall>v\<in>set [PDict [(''versionNumber'', PStr ''0.1''), (''buildTag'', PStr ''beta'')],
                     PDict [(''versionNumber'', PStr ''0.2'')]].
             \<exists>kvs. v = PDict kvs \<and> dict_get kvs ''buildTag'' \<noteq> Some (PStr ''latest'')"
    by simp
  show ?thesis
    by (rule no_latest_version_gives_empty_list [OF 1 2 3])
qed

lemma next_latest_dict_nonempty:
  "next_latest versions = Inr (PDict version) \<Longrightarrow> version \<noteq> []"
  by (induction versions) (auto simp: py_get_def split: sum.splits if_splits pyval.splits elim!: py_get_default.elims)

lemma is_text_format_wf:
  "f = PDict kvs \<Longrightarrow> dict_get kvs ''format'' = None \<or> (\<exists>s. dict_get kvs ''format'' = Some (PStr s))
   \<Longrightarrow> is_text_format f = Inr (has_text_format f)"
  by (auto simp: is_text_format_def has_text_format_def lower_def)

lemma is_text_format_sound:
  "is_text_format f = Inr b \<Longrightarrow> b = has_text_format f"
proof (cases f)
  case (PDict kvs)
  assume "is_text_format f = Inr b"
  with PDict show ?thesis
    by (cases "dict_get kvs ''format''")
       (auto simp: is_text_format_def has_text_format_def lower_def split: pyval.splits)
qed (simp_all add: is_text_format_def)

lemma text_source_files_filter:
  "\<forall>f\<in>set fs. \<exists>kvs. f = PDict kvs \<and>
      (dict_get kvs ''format'' = None \<or> (\<exists>s. dict_get kvs ''format'' = Some (PStr s)))
   \<Longrightarrow> text_source_files fs = Inr (filter has_text_format fs)"
proof (induction fs)
  case Nil
  then show ?case by simp
next
  case (Cons f fs)
  from Cons.prems obtain kvs where f: "f = PDict kvs"
    and fmt: "dict_get kvs ''format'' = None \<or> (\<exists>s. dict_get kvs ''format'' = Some (PStr s))"
    by auto
  have "is_text_format f = Inr (has_text_format f)"
    using f fmt by (rule is_text_format_wf)
  moreover have "text_source_files fs = Inr (filter has_text_format fs)"
    using Cons by simp
  ultimately show ?case by simp
qed

lemma text_source_files_sound:
  "text_source_files fs = Inr ys \<Longrightarrow> ys = filter has_text_format fs"
proof (induction fs arbitrary: ys)
  case Nil
  then show ?case by simp
next
  case (Cons f fs)
  from Cons.prems obtain b rest where b: "is_text_format f = Inr b"
    and rest: "text_source_files fs = Inr rest" and ys: "ys = (if b then f # rest else rest)"
    by (auto split: sum.splits)
  from b have "b = has_text_format f" by (rule is_text_format_sound)
  moreover from rest have "rest = filter has_text_format fs" by (rule Cons.IH)
  ultimately show ?case using ys by simp
qed

text \<open>
  Claim C10. Let the first version tagged \<^verbatim>\<open>latest\<close> hold the list \<open>source_files\<close>. Whatever
  \<open>get_actor_source_files\<close> returns is that list filtered by \<open>has_text_format\<close>: every entry
  returned has a \<^verbatim>\<open>format\<close> equal to \<^verbatim>\<open>text\<close> up to letter case, every other entry is dropped,
  the order is kept. And it does return, when every entry is a dict whose \<^verbatim>\<open>format\<close> is absent
  or a string.
\<close>

theorem source_files_only_text_format:
  assumes "get_actor_id apify_client actor_name = Inr actor_id"
      and "versions_list apify_client actor_id = Inr versions"
      and "next_latest versions = Inr (PDict version)"
      and "dict_get version ''sourceFiles'' = Some (PList source_files)"
  shows "(\<forall>ys. get_actor_source_files apify_client actor_name = Inr ys \<longrightarrow>
            ys = filter has_text_format source_files) \<and>
         ((\<forall>f\<in>set source_files. \<exists>kvs. f = PDict kvs \<and>
              (dict_get kvs ''format'' = None \<or> (\<exists>s. dict_get kvs ''format'' = Some (PStr s)))) \<longrightarrow>
          get_actor_source_files apify_client actor_name =
            Inr (filter has_text_format source_files))"
proof -
  have ne: "version \<noteq> []"
    using assms(3) by (rule next_latest_dict_nonempty)
  have run: "get_actor_source_files apify_client actor_name = text_source_files source_files"
    using assms ne by (simp add: get_actor_source_files_def py_get_def)
  have a: "\<forall>ys. get_actor_source_files apify_client actor_name = Inr ys \<longrightarrow>
            ys = filter has_text_format source_files"
    unfolding run by (blast dest: text_source_files_sound)
  have b: "(\<forall>f\<in>set source_files. \<exists>kvs. f = PDict kvs \<and>
              (dict_get kvs ''format'' = None \<or> (\<exists>s. dict_get kvs ''format'' = Some (PStr s)))) \<longrightarrow>
          get_actor_source_files apify_client actor_name =
            Inr (filter has_text_format source_files)"
    unfolding run by (rule impI) (rule text_source_files_filter)
  from a b show ?thesis by (rule conjI)
qed

theorem source_files_only_text_format_witness:
  "get_actor_source_files
     \<lparr>actor_get = (\<lambda>x. Inr (PDict [(''id'', PStr ''abc123'')])),
      versions_list = (\<lambda>x. Inr [PDict [(''buildTag'', PStr ''latest''),
          (''sourceFiles'', PList [PDict [(''name'', PStr ''src/main.py''), (''format'', PStr ''TEXT'')],
                                   PDict [(''name'', PStr ''logo.png''), (''format'', PStr ''BASE64'')],
                                   PDict [(''name'', PStr ''src''), (''folder'', PBool True)]])]]),
      store_list = (\<lambda>l k s. Inr [])\<rparr> ''apify/web-scraper'' =
   Inr [PDict [(''name'', PStr ''src/main.py''), (''format'', PStr ''TEXT'')]]"
proof -
  let ?fs = "[PDict [(''name'', PStr ''src/main.py''), (''format'', PStr ''TEXT'')],
              PDict [(''name'', PStr ''logo.png''), (''format'', PStr ''BASE64'')],
              PDict [(''name'', PStr ''src''), (''folder'', PBool True)]]"
  let ?v = "[(''buildTag'', PStr ''latest''), (''sourceFiles'', PList ?fs)]"
  let ?c = "\<lparr>actor_get = (\<lambda>x. Inr (PDict [(''id'', PStr ''abc123'')])),
      versions_list = (\<lambda>x. Inr [PDict ?v]), store_list = (\<lambda>l k s. Inr [])\<rparr>"
  have 1: "get_actor_id ?c ''apify/web-scraper'' = Inr (PStr ''abc123'')"
    by (simp add: get_actor_id_def py_get_def)
  have 2: "versions_list ?c (PStr ''abc123'') = Inr [PDict ?v]"
    by simp
  have 3: "next_latest [PDict ?v] = Inr (PDict ?v)"
    by (simp add: py_get_def)
  have 4: "dict_get ?v ''sourceFiles'' = Some (PList ?fs)"
    by simp
  have 5: "\<forall>f\<in>set ?fs. \<exists>kvs. f = PDict kvs \<and>
              (dict_get kvs ''format'' = None \<or> (\<exists>s. dict_get kvs ''format'' = Some (PStr s)))"
    by simp
  have 6: "filter has_text_format ?fs =
             [PDict [(''name'', PStr ''src/main.py''), (''format'', PStr ''TEXT'')]]"
    by (simp add: has_text_format_def lower_def lower_char_def)
  from source_files_only_text_format [OF 1 2 3 4]
  have "(\<forall>f\<in>set ?fs. \<exists>kvs. f = PDict kvs \<and>
              (dict_get kvs ''format'' = None \<or> (\<exists>s. dict_get kvs ''format'' = Some (PStr s)))) \<longrightarrow>
        get_actor_source_files ?c ''apify/web-scraper'' = Inr (filter has_text_format ?fs)"
    by (rule conjunct2)
  then have "get_actor_source_files ?c ''apify/web-scraper'' = Inr (filter has_text_format ?fs)"
    using 5 by (rule mp)
  then show ?thesis
    unfolding 6 .
qed

section \<open>The file tree builder\<close>

subsection \<open>Dicts\<close>

lemma dict_get_set:
  "dict_get (dict_set kvs k v) k' = (if k' = k then Some v else dict_get kvs k')"
  by (induction kvs k v rule: dict_set.induct) auto

lemma keys_dict_set:
  "fst ` set (dict_set kvs k v) = insert k (fst ` set kvs)"
  by (induction kvs k v rule: dict_set.induct) auto

lemma in_dict_set_key:
  "(a, b) \<in> set (dict_set kvs k v) \<Longrightarrow> a = k \<or> a \<in> fst ` set kvs"
  using keys_dict_set [of kvs k v] by (metis fst_conv image_eqI insertE)

lemma distinct_dict_set:
  "distinct (map fst kvs) \<Longrightarrow> distinct (map fst (dict_set kvs k v))"
  by (induction kvs k v rule: dict_set.induct) (auto dest: in_dict_set_key)

lemma dict_set_nonempty: "dict_set kvs k v \<noteq> []"
  by (induction kvs k v rule: dict_set.induct) auto

subsection \<open>One path added to a tree\<close>

lemma lookup_path_empty_dir: "\<not> prefix q ps \<Longrightarrow> lookup_path (Dir []) q = None"
  by (cases q) auto

lemma lookup_path_append:
  "lookup_path t (p @ r) = (case lookup_path t p of None \<Rightarrow> None | Some s \<Rightarrow> lookup_path s r)"
  by (induction t p rule: lookup_path.induct) (auto split: option.splits)

lemma add_path_error: "add_path t ps = Inl e \<Longrightarrow> e = TypeError"
  by (induction t ps rule: add_path.induct) (auto split: sum.splits)

lemma add_path_lookup_self:
  "add_path t ps = Inr t' \<Longrightarrow> ps \<noteq> [] \<Longrightarrow> lookup_path t' ps = Some Leaf"
  by (induction t ps arbitrary: t' rule: add_path.induct)
     (auto simp: dict_get_set split: sum.splits)

lemma add_path_lookup_other:
  "add_path t ps = Inr t' \<Longrightarrow> \<not> prefix ps q \<Longrightarrow> \<not> prefix q ps \<Longrightarrow>
   lookup_path t' q = lookup_path t q"
proof (induction t ps arbitrary: t' q rule: add_path.induct)
  case (1 current)
  then show ?case by simp
next
  case (2 part rest)
  then show ?case by simp
next
  case (3 kvs part)
  then show ?case by (cases q) (auto simp: dict_get_set)
next
  case (4 kvs part v va)
  then show ?case
    by (cases q) (auto simp: dict_get_set lookup_path_empty_dir split: sum.splits option.splits)
qed

lemma add_path_lookup_above:
  "add_path t ps = Inr t' \<Longrightarrow> strict_prefix q ps \<Longrightarrow>
   (\<exists>kvs. lookup_path t' q = Some (Dir kvs)) \<and> lookup_path t q \<noteq> Some Leaf"
proof (induction t ps arbitrary: t' q rule: add_path.induct)
  case (1 current)
  then show ?case by simp
next
  case (2 part rest)
  then show ?case by simp
next
  case (3 kvs part)
  then show ?case by (cases q) (auto simp: dict_get_set)
next
  case (4 kvs part v va)
  then show ?case
    by (cases q) (auto simp: dict_get_set split: sum.splits option.splits)
qed

lemma add_path_blocked:
  "strict_prefix q ps \<Longrightarrow> lookup_path t q = Some Leaf \<Longrightarrow> add_path t ps = Inl TypeError"
proof (induction t ps arbitrary: q rule: add_path.induct)
  case (1 current)
  then show ?case by simp
next
  case (2 part rest)
  then show ?case by simp
next
  case (3 kvs part)
  then show ?case by (cases q) (auto split: option.splits)
next
  case (4 kvs part v va)
  then show ?case
    by (cases q) (auto split: sum.splits option.splits)
qed

lemma add_path_succeeds:
  "\<forall>q. strict_prefix q ps \<longrightarrow> lookup_path t q \<noteq> Some Leaf \<Longrightarrow> \<exists>t'. add_path t ps = Inr t'"
proof (induction t ps rule: add_path.induct)
  case (1 current)
  then show ?case by simp
next
  case (2 part rest)
  from 2 have "lookup_path Leaf [] \<noteq> Some Leaf" by (metis strict_prefix_simps(2) list.distinct(1) prefix_bot.bot_less)
  then show ?case by simp
next
  case (3 kvs part)
  then show ?case by simp
next
  case (4 kvs part v va)
  let ?sub = "case dict_get kvs part of None \<Rightarrow> Dir [] | Some sub \<Rightarrow> sub"
  have "\<forall>q. strict_prefix q (v # va) \<longrightarrow> lookup_path ?sub q \<noteq> Some Leaf"
  proof (intro allI impI)
    fix q assume q: "strict_prefix q (v # va)"
    then have "strict_prefix (part # q) (part # v # va)" by simp
    with 4(2) have "lookup_path (Dir kvs) (part # q) \<noteq> Some Leaf" by blast
    then show "lookup_path ?sub q \<noteq> Some Leaf"
      using q by (cases q) (auto split: option.splits)
  qed
  from 4(1)[OF this] show ?case by auto
qed


subsection \<open>Branches, leaf counts and the invariants of a tree\<close>

lemma dict_get_none: "k \<notin> fst ` set kvs \<Longrightarrow> dict_get kvs k = None"
  by (induction kvs k rule: dict_get.induct) auto

lemma leaf_paths_list_heads:
  "q \<in> set (leaf_paths_list kvs) \<Longrightarrow> \<exists>k ks. q = k # ks \<and> k \<in> fst ` set kvs"
proof (induction kvs)
  case Nil
  then show ?case by simp
next
  case (Cons kv kvs)
  obtain k v where kv: "kv = (k, v)" by (cases kv)
  from Cons.prems kv
  have "q \<in> (#) k ` set (leaf_paths v) \<or> q \<in> set (leaf_paths_list kvs)" by auto
  then show ?case
  proof
    assume "q \<in> (#) k ` set (leaf_paths v)"
    then show ?thesis using kv by auto
  next
    assume "q \<in> set (leaf_paths_list kvs)"
    from Cons.IH [OF this] show ?thesis by auto
  qed
qed

lemma leaf_paths_lookup:
  "unique_keys t \<Longrightarrow> q \<in> set (leaf_paths t) \<longleftrightarrow> lookup_path t q = Some Leaf"
  "distinct (map fst kvs) \<Longrightarrow> unique_keys_list kvs \<Longrightarrow>
     q \<in> set (leaf_paths_list kvs) \<longleftrightarrow> lookup_path (Dir kvs) q = Some Leaf"
proof (induction t and kvs arbitrary: q and q rule: leaf_paths_leaf_paths_list.induct)
  case 1
  then show ?case by (cases q) auto
next
  case (2 kvs)
  then show ?case by simp
next
  case 3
  then show ?case by (cases q) auto
next
  case (4 k v kvs)
  show ?case
  proof (cases q)
    case Nil
    then show ?thesis using leaf_paths_list_heads [of q kvs] by auto
  next
    case (Cons k' ks)
    show ?thesis
    proof (cases "k' = k")
      case True
      have "dict_get kvs k = None" using 4(3) by (simp add: dict_get_none)
      then have "k # ks \<notin> set (leaf_paths_list kvs)"
        using 4(2)[of "k # ks"] 4(3,4) by simp
      then show ?thesis using True Cons 4(1)[of ks] 4(4) by auto
    next
      case False
      then show ?thesis using Cons 4(2)[of q] 4(3,4) by auto
    qed
  qed
qed

lemma leaf_paths_distinct:
  "unique_keys t \<Longrightarrow> distinct (leaf_paths t)"
  "distinct (map fst kvs) \<Longrightarrow> unique_keys_list kvs \<Longrightarrow> distinct (leaf_paths_list kvs)"
proof (induction t and kvs rule: leaf_paths_leaf_paths_list.induct)
  case (4 k v kvs)
  have "distinct (map ((#) k) (leaf_paths v))"
    using 4 by (simp add: distinct_map)
  moreover have "distinct (leaf_paths_list kvs)" using 4 by simp
  moreover have "set (map ((#) k) (leaf_paths v)) \<inter> set (leaf_paths_list kvs) = {}"
    using 4(3) leaf_paths_list_heads [of _ kvs] by fastforce
  ultimately show ?case by simp
qed simp_all

lemma leaf_count_length:
  "leaf_count t = length (leaf_paths t)"
  "leaf_count_list kvs = length (leaf_paths_list kvs)"
  by (induction t and kvs rule: leaf_count_leaf_count_list.induct) simp_all

lemma unique_keys_list_set:
  "unique_keys_list kvs \<Longrightarrow> unique_keys v \<Longrightarrow> unique_keys_list (dict_set kvs k v)"
  by (induction kvs k v rule: dict_set.induct) auto

lemma unique_keys_list_get:
  "unique_keys_list kvs \<Longrightarrow> dict_get kvs k = Some sub \<Longrightarrow> unique_keys sub"
  by (induction kvs k rule: dict_get.induct) (auto split: if_splits)

lemma add_path_unique_keys:
  "add_path t ps = Inr t' \<Longrightarrow> unique_keys t \<Longrightarrow> unique_keys t'"
proof (induction t ps arbitrary: t' rule: add_path.induct)
  case (4 kvs part v va)
  let ?sub = "case dict_get kvs part of None \<Rightarrow> Dir [] | Some sub \<Rightarrow> sub"
  from 4(2) obtain sub' where sub': "add_path ?sub (v # va) = Inr sub'"
    and t': "t' = Dir (dict_set kvs part sub')"
    by (auto split: sum.splits)
  have "unique_keys ?sub"
    using 4(3) by (auto split: option.splits dest: unique_keys_list_get)
  with 4(1) sub' have "unique_keys sub'" by blast
  then show ?case using t' 4(3) by (simp add: distinct_dict_set unique_keys_list_set)
qed (auto simp: distinct_dict_set unique_keys_list_set)

lemma populated_list_set:
  "populated_list kvs \<Longrightarrow> populated v \<Longrightarrow> populated_list (dict_set kvs k v)"
  by (induction kvs k v rule: dict_set.induct) auto

lemma populated_list_get:
  "populated_list kvs \<Longrightarrow> dict_get kvs k = Some sub \<Longrightarrow> populated sub"
  by (induction kvs k rule: dict_get.induct) (auto split: if_splits)

lemma add_path_populated:
  "add_path (Dir kvs) ps = Inr t' \<Longrightarrow> ps \<noteq> [] \<Longrightarrow> populated_list kvs \<Longrightarrow> populated t'"
proof (induction "Dir kvs" ps arbitrary: kvs t' rule: add_path.induct)
  case (1)
  then show ?case by simp
next
  case (3 kvs part)
  then show ?case by (auto simp: dict_set_nonempty populated_list_set)
next
  case (4 kvs part v va)
  let ?sub = "case dict_get kvs part of None \<Rightarrow> Dir [] | Some sub \<Rightarrow> sub"
  from 4(2) obtain sub' where sub': "add_path ?sub (v # va) = Inr sub'"
    and t': "t' = Dir (dict_set kvs part sub')"
    by (auto split: sum.splits)
  have "?sub \<noteq> Leaf" using sub' by auto
  then obtain kvs' where k: "?sub = Dir kvs'" by (cases ?sub) auto
  have "populated_list kvs'"
  proof (cases "dict_get kvs part")
    case None
    then show ?thesis using k by simp
  next
    case (Some a)
    then have "populated (Dir kvs')" using k 4(4) populated_list_get by fastforce
    then show ?thesis by simp
  qed
  with 4(1)[OF k] sub' k have "populated sub'" by simp
  then show ?case using t' 4(4) by (simp add: dict_set_nonempty populated_list_set)
qed

lemma add_path_dir: "add_path (Dir kvs) ps = Inr t' \<Longrightarrow> \<exists>kvs'. t' = Dir kvs'"
  by (cases "(Dir kvs, ps)" rule: add_path.cases) (auto split: sum.splits)

subsection \<open>Splitting a path, and the loop over the records\<close>

lemma split_acc_nonempty: "split_acc sep acc s \<noteq> []"
  by (induction s arbitrary: acc) auto

lemma split_nonempty: "split s sep \<noteq> []"
  by (simp add: split_def split_acc_nonempty)

lemma split_acc_join:
  "concat (map ((#) sep) (split_acc sep acc s)) = sep # acc @ s"
  by (induction s arbitrary: acc) auto

lemma split_inj: "split a sep = split b sep \<Longrightarrow> a = b"
proof -
  assume "split a sep = split b sep"
  then have "concat (map ((#) sep) (split_acc sep [] a)) = concat (map ((#) sep) (split_acc sep [] b))"
    by (simp add: split_def)
  then show "a = b" by (simp add: split_acc_join)
qed

lemma path_parts_name:
  "dict_get file_info ''name'' = Some (PStr name) \<Longrightarrow>
   path_parts file_info = Inr (split name (CHR ''/''))"
  by (simp add: path_parts_def)

lemma path_parts_missing:
  "dict_get file_info ''name'' = None \<Longrightarrow> path_parts file_info = Inl (KeyError ''name'')"
  by (simp add: path_parts_def)

lemma build_tree_append:
  "build_tree t (pre @ rest) =
     (case build_tree t pre of Inl e \<Rightarrow> Inl e | Inr t' \<Rightarrow> build_tree t' rest)"
  by (induction pre arbitrary: t) (auto split: sum.splits)

lemma build_tree_bad_record:
  "f \<in> set files \<Longrightarrow> path_parts f = Inl e0 \<Longrightarrow> \<exists>e. build_tree t files = Inl e"
  by (induction files arbitrary: t) (auto split: sum.splits)

lemma add_path_leaf_prefix_persists:
  assumes "add_path t ps = Inr t'" and "prefix q p" and "lookup_path t q = Some Leaf"
  shows "\<exists>q'. prefix q' p \<and> lookup_path t' q' = Some Leaf"
proof (cases "ps = []")
  case True
  with assms show ?thesis by auto
next
  case ne: False
  show ?thesis
  proof (cases "prefix ps q")
    case True
    then have "prefix ps p" using assms(2) by (rule prefix_order.trans)
    moreover have "lookup_path t' ps = Some Leaf"
      using assms(1) ne by (rule add_path_lookup_self)
    ultimately show ?thesis by blast
  next
    case False
    show ?thesis
    proof (cases "prefix q ps")
      case True
      with False have "strict_prefix q ps" by (auto simp: strict_prefix_def)
      then have "add_path t ps = Inl TypeError"
        using assms(3) by (rule add_path_blocked)
      with assms(1) show ?thesis by simp
    next
      case nq: False
      have "lookup_path t' q = lookup_path t q"
        using assms(1) False nq by (rule add_path_lookup_other)
      with assms(2,3) show ?thesis by auto
    qed
  qed
qed

lemma build_tree_blocked:
  "lookup_path t q' = Some Leaf \<Longrightarrow> prefix q' p \<Longrightarrow> strict_prefix p q \<Longrightarrow>
   f \<in> set files \<Longrightarrow> path_parts f = Inr q \<Longrightarrow> \<exists>e. build_tree t files = Inl e"
proof (induction files arbitrary: t q')
  case Nil
  then show ?case by simp
next
  case (Cons g files)
  show ?case
  proof (cases "path_parts g")
    case (Inl e)
    then show ?thesis by simp
  next
    case (Inr ps)
    show ?thesis
    proof (cases "add_path t ps")
      case (Inl e)
      with Inr show ?thesis by simp
    next
      case t1: (Inr t1)
      have "f \<noteq> g"
      proof
        assume "f = g"
        with Cons.prems(5) Inr have "ps = q" by simp
        moreover have "strict_prefix q' q"
          using Cons.prems(2,3) by (rule prefix_order.le_less_trans)
        ultimately have "add_path t ps = Inl TypeError"
          using Cons.prems(1) add_path_blocked by blast
        with t1 show False by simp
      qed
      with Cons.prems(4) have mem: "f \<in> set files" by simp
      from add_path_leaf_prefix_persists [OF t1 Cons.prems(2) Cons.prems(1)]
      obtain q'' where "prefix q'' p" and "lookup_path t1 q'' = Some Leaf" by blast
      then have "\<exists>e. build_tree t1 files = Inl e"
        using Cons.IH Cons.prems(3,5) mem by blast
      then show ?thesis using Inr t1 by simp
    qed
  qed
qed

lemma build_tree_error_kind:
  "\<forall>f\<in>set files. \<exists>ps. path_parts f = Inr ps \<Longrightarrow> build_tree t files = Inl e \<Longrightarrow> e = TypeError"
  by (induction files arbitrary: t) (auto split: sum.splits dest: add_path_error)


text \<open>
  Claim C5. The builder is not total. When the path of some record strictly extends, by at
  least one more segment, the full path of an earlier record, \<open>generate_file_tree\<close> raises
  and returns no tree: the leaf marker the earlier path left (or one on the way to it, left
  in between) is reached with a segment still to go. When every record has a string
  \<^verbatim>\<open>name\<close>, the exception is the \<^verbatim>\<open>TypeError\<close> of using \<^verbatim>\<open>None\<close> as a dict. No tree is
  returned, so no count of its leaves equals the number of distinct paths.
\<close>

theorem generate_file_tree_prefix_conflict_raises:
  assumes "i < j" and "j < length files"
      and "dict_get (files ! i) ''name'' = Some (PStr a)"
      and "dict_get (files ! j) ''name'' = Some (PStr b)"
      and "strict_prefix (split a (CHR ''/'')) (split b (CHR ''/''))"
  shows "(\<exists>e. generate_file_tree files = Inl e) \<and>
         ((\<forall>f\<in>set files. \<exists>n. dict_get f ''name'' = Some (PStr n)) \<longrightarrow>
            generate_file_tree files = Inl TypeError)"
proof -
  let ?p = "split a (CHR ''/'')" and ?q = "split b (CHR ''/'')"
  let ?pre = "take i files" and ?rest = "drop (Suc i) files"
  have i: "i < length files" using assms(1,2) by simp
  have files: "files = ?pre @ files ! i # ?rest"
    using i by (rule id_take_nth_drop)
  have pi: "path_parts (files ! i) = Inr ?p"
    using assms(3) by (rule path_parts_name)
  have pj: "path_parts (files ! j) = Inr ?q"
    using assms(4) by (rule path_parts_name)
  have "files ! j = ?rest ! (j - Suc i)" using assms(1,2) by simp
  moreover have "j - Suc i < length ?rest" using assms(1,2) by simp
  ultimately have mem: "files ! j \<in> set ?rest" by (metis nth_mem)
  have fails: "\<exists>e. build_tree (Dir []) (?pre @ files ! i # ?rest) = Inl e"
  proof (cases "build_tree (Dir []) ?pre")
    case (Inl e)
    then show ?thesis by (simp add: build_tree_append)
  next
    case (Inr t0)
    show ?thesis
    proof (cases "add_path t0 ?p")
      case (Inl e)
      with Inr pi show ?thesis by (simp add: build_tree_append)
    next
      case t1: (Inr t1)
      have "lookup_path t1 ?p = Some Leaf"
        using t1 split_nonempty by (rule add_path_lookup_self)
      then have "\<exists>e. build_tree t1 ?rest = Inl e"
        using prefix_order.refl assms(5) mem pj by (rule build_tree_blocked)
      with Inr pi t1 show ?thesis by (simp add: build_tree_append)
    qed
  qed
  then have ex: "\<exists>e. generate_file_tree files = Inl e"
    unfolding generate_file_tree_def using files by simp
  have "generate_file_tree files = Inl TypeError"
    if wf: "\<forall>f\<in>set files. \<exists>n. dict_get f ''name'' = Some (PStr n)"
  proof -
    from wf have "\<forall>f\<in>set files. \<exists>ps. path_parts f = Inr ps"
      by (blast dest: path_parts_name)
    with ex show ?thesis
      unfolding generate_file_tree_def by (blast dest: build_tree_error_kind)
  qed
  with ex show ?thesis by blast
qed

theorem generate_file_tree_prefix_conflict_raises_witness:
  "generate_file_tree [[(''name'', PStr ''src''), (''folder'', PBool True)],
                       [(''name'', PStr ''README.md'')],
                       [(''name'', PStr ''src/main.py'')]] = Inl TypeError"
proof -
  let ?files = "[[(''name'', PStr ''src''), (''folder'', PBool True)],
                 [(''name'', PStr ''README.md'')],
                 [(''name'', PStr ''src/main.py'')]]"
  have 1: "(0::nat) < 2" and 2: "2 < length ?files" by simp_all
  have 3: "dict_get (?files ! 0) ''name'' = Some (PStr ''src'')" by simp
  have 4: "dict_get (?files ! 2) ''name'' = Some (PStr ''src/main.py'')" by simp
  have 5: "strict_prefix (split ''src'' (CHR ''/'')) (split ''src/main.py'' (CHR ''/''))"
    by (simp add: split_def)
  have 6: "\<forall>f\<in>set ?files. \<exists>n. dict_get f ''name'' = Some (PStr n)" by simp
  from generate_file_tree_prefix_conflict_raises [OF 1 2 3 4 5] 6
  show ?thesis by blast
qed

text \<open>
  Claim C6. A record without the \<^verbatim>\<open>name\<close> key is never skipped. The builder works through
  the records before it; if one of them raises, that is the outcome, and otherwise the
  builder raises the \<^verbatim>\<open>KeyError\<close> for \<^verbatim>\<open>name\<close> at that record, whatever follows it. So a list
  that contains such a record is never turned into a tree.
\<close>

theorem generate_file_tree_missing_name_raises:
  assumes "dict_get file_info ''name'' = None"
  shows "generate_file_tree (pre @ file_info # post) =
           (case generate_file_tree pre of
              Inl e \<Rightarrow> Inl e
            | Inr tree \<Rightarrow> Inl (KeyError ''name'')) \<and>
         (file_info \<in> set files \<longrightarrow> (\<exists>e. generate_file_tree files = Inl e))"
proof -
  have bad: "path_parts file_info = Inl (KeyError ''name'')"
    using assms by (rule path_parts_missing)
  have "generate_file_tree (pre @ file_info # post) =
          (case generate_file_tree pre of Inl e \<Rightarrow> Inl e | Inr tree \<Rightarrow> Inl (KeyError ''name''))"
    using bad by (simp add: generate_file_tree_def build_tree_append split: sum.splits)
  moreover have "\<exists>e. generate_file_tree files = Inl e" if "file_info \<in> set files"
    unfolding generate_file_tree_def using that bad by (rule build_tree_bad_record)
  ultimately show ?thesis by blast
qed

theorem generate_file_tree_missing_name_raises_witness:
  "generate_file_tree ([[(''name'', PStr ''src/main.py'')]] @
                        [(''path'', PStr ''README.md'')] # [[(''name'', PStr ''src/util.py'')]]) =
     Inl (KeyError ''name'')"
proof -
  have 1: "dict_get [(''path'', PStr ''README.md'')] ''name'' = None" by simp
  have 2: "generate_file_tree [[(''name'', PStr ''src/main.py'')]] =
             Inr (Dir [(''src'', Dir [(''main.py'', Leaf)])])"
    by (simp add: generate_file_tree_def path_parts_def split_def)
  from generate_file_tree_missing_name_raises
         [OF 1, of "[[(''name'', PStr ''src/main.py'')]]" "[[(''name'', PStr ''src/util.py'')]]"]
  have "generate_file_tree ([[(''name'', PStr ''src/main.py'')]] @
                        [(''path'', PStr ''README.md'')] # [[(''name'', PStr ''src/util.py'')]]) =
          (case generate_file_tree [[(''name'', PStr ''src/main.py'')]] of
             Inl e \<Rightarrow> Inl e
           | Inr tree \<Rightarrow> Inl (KeyError ''name''))"
    by (rule conjunct1)
  then show ?thesis unfolding 2 by simp
qed

subsection \<open>Lists without a path that continues another\<close>

lemma add_path_lookup_below:
  assumes "add_path t ps = Inr t'" and "ps \<noteq> []" and "strict_prefix ps q"
  shows "lookup_path t' q = None"
proof -
  from assms(3) obtain r where q: "q = ps @ r" and r: "r \<noteq> []"
    by (auto simp: strict_prefix_def prefix_def)
  have "lookup_path t' ps = Some Leaf"
    using assms(1,2) by (rule add_path_lookup_self)
  then have "lookup_path t' q = lookup_path Leaf r"
    unfolding q by (simp add: lookup_path_append)
  then show ?thesis using r by (cases r) simp_all
qed

lemma add_path_leaves:
  assumes "add_path t ps = Inr t'" and "ps \<noteq> []"
  shows "{q. lookup_path t' q = Some Leaf} =
           insert ps {q. lookup_path t q = Some Leaf \<and> \<not> prefix ps q}"
proof (intro set_eqI iffI)
  fix q assume "q \<in> {q. lookup_path t' q = Some Leaf}"
  then have l: "lookup_path t' q = Some Leaf" by simp
  show "q \<in> insert ps {q. lookup_path t q = Some Leaf \<and> \<not> prefix ps q}"
  proof (cases "prefix ps q")
    case True
    have "\<not> strict_prefix ps q"
      using add_path_lookup_below [OF assms] l by auto
    with True have "q = ps" by (auto simp: strict_prefix_def)
    then show ?thesis by simp
  next
    case False
    have "\<not> strict_prefix q ps"
    proof
      assume "strict_prefix q ps"
      with assms(1) have "\<exists>kvs. lookup_path t' q = Some (Dir kvs)"
        by (blast dest: add_path_lookup_above)
      with l show False by simp
    qed
    with False have "\<not> prefix q ps" by (auto simp: strict_prefix_def)
    with assms(1) False have "lookup_path t' q = lookup_path t q"
      by (rule add_path_lookup_other)
    with l False show ?thesis by simp
  qed
next
  fix q assume q: "q \<in> insert ps {q. lookup_path t q = Some Leaf \<and> \<not> prefix ps q}"
  show "q \<in> {q. lookup_path t' q = Some Leaf}"
  proof (cases "q = ps")
    case True
    then show ?thesis using add_path_lookup_self [OF assms] by simp
  next
    case False
    with q have l: "lookup_path t q = Some Leaf" and np: "\<not> prefix ps q" by auto
    have "\<not> strict_prefix q ps"
      using assms(1) l by (blast dest: add_path_lookup_above)
    with False have "\<not> prefix q ps" by (auto simp: strict_prefix_def)
    with assms(1) np have "lookup_path t' q = lookup_path t q"
      by (rule add_path_lookup_other)
    with l show ?thesis by simp
  qed
qed

lemma build_tree_prefix_free:
  assumes "map path_parts files = map Inr segs"
      and "\<forall>s\<in>set segs. s \<noteq> []"
      and "unique_keys (Dir kvs)"
      and "populated_list kvs"
      and "\<forall>p\<in>{q. lookup_path (Dir kvs) q = Some Leaf} \<union> set segs.
             \<forall>q\<in>{q. lookup_path (Dir kvs) q = Some Leaf} \<union> set segs. \<not> strict_prefix p q"
  shows "\<exists>kvs'. build_tree (Dir kvs) files = Inr (Dir kvs') \<and> unique_keys (Dir kvs') \<and>
           populated_list kvs' \<and>
           {q. lookup_path (Dir kvs') q = Some Leaf} =
             {q. lookup_path (Dir kvs) q = Some Leaf} \<union> set segs"
  using assms
proof (induction files arbitrary: segs kvs)
  case Nil
  then show ?case by simp
next
  case (Cons f fs)
  let ?L = "{q. lookup_path (Dir kvs) q = Some Leaf}"
  from Cons.prems(1) obtain s ss where segs: "segs = s # ss"
    and f: "path_parts f = Inr s" and fs: "map path_parts fs = map Inr ss"
    by (cases segs) auto
  have s: "s \<noteq> []" using Cons.prems(2) segs by simp
  have free: "\<And>p q. p \<in> ?L \<union> set segs \<Longrightarrow> q \<in> ?L \<union> set segs \<Longrightarrow> \<not> strict_prefix p q"
    using Cons.prems(5) by blast
  have "\<forall>q. strict_prefix q s \<longrightarrow> lookup_path (Dir kvs) q \<noteq> Some Leaf"
    using free [of _ s] segs by auto
  then obtain t1 where t1: "add_path (Dir kvs) s = Inr t1"
    using add_path_succeeds by blast
  then obtain kvs1 where kvs1: "t1 = Dir kvs1" using add_path_dir by blast
  have u1: "unique_keys (Dir kvs1)"
    using t1 Cons.prems(3) kvs1 add_path_unique_keys by blast
  have "populated t1" using t1 s Cons.prems(4) by (rule add_path_populated)
  then have p1: "populated_list kvs1" using kvs1 by simp
  have "{q. lookup_path t1 q = Some Leaf} = insert s {q. lookup_path (Dir kvs) q = Some Leaf \<and> \<not> prefix s q}"
    using t1 s by (rule add_path_leaves)
  moreover have "\<not> prefix s q" if "q \<in> ?L" "q \<noteq> s" for q
    using free [of s q] that segs by (auto simp: strict_prefix_def)
  ultimately have L1: "{q. lookup_path (Dir kvs1) q = Some Leaf} = insert s ?L"
    using kvs1 by auto
  have free1: "\<forall>p\<in>{q. lookup_path (Dir kvs1) q = Some Leaf} \<union> set ss.
                 \<forall>q\<in>{q. lookup_path (Dir kvs1) q = Some Leaf} \<union> set ss. \<not> strict_prefix p q"
    unfolding L1 using free segs by auto
  have "\<forall>s\<in>set ss. s \<noteq> []" using Cons.prems(2) segs by simp
  from Cons.IH [OF fs this u1 p1 free1]
  obtain kvs' where "build_tree (Dir kvs1) fs = Inr (Dir kvs')" "unique_keys (Dir kvs')"
    "populated_list kvs'"
    "{q. lookup_path (Dir kvs') q = Some Leaf} = {q. lookup_path (Dir kvs1) q = Some Leaf} \<union> set ss"
    by blast
  then show ?case using f t1 kvs1 L1 segs by auto
qed

lemma empty_dir_no_leaf: "lookup_path (Dir []) q \<noteq> Some Leaf"
  by (cases q) simp_all


text \<open>
  Claim C1, as the code has it. Let every record have a string \<^verbatim>\<open>name\<close>, and let no path of
  the list continue another one below its last segment (\<open>prefix_free\<close>). Then
  \<open>generate_file_tree\<close> returns a tree; the number of its leaf entries is the number of
  distinct full paths; its branches, from the root to a leaf marker, are exactly the segment
  sequences of the paths; no directory of it is empty, so every walk down ends at a leaf
  marker; and the depth of each branch is the largest segment count among the paths that
  lie along it, which is the segment count of the path that spells it.
\<close>

theorem generate_file_tree_prefix_free:
  assumes names: "map (\<lambda>f. dict_get f ''name'') files = map (\<lambda>n. Some (PStr n)) names"
      and pf: "prefix_free (map (\<lambda>n. split n (CHR ''/'')) names)"
  shows "\<exists>kvs. generate_file_tree files = Inr (Dir kvs) \<and>
           leaf_count (Dir kvs) = card (set names) \<and>
           set (leaf_paths (Dir kvs)) = set (map (\<lambda>n. split n (CHR ''/'')) names) \<and>
           populated_list kvs \<and>
           (\<forall>b\<in>set (leaf_paths (Dir kvs)).
              length b =
                Max (length ` {s \<in> set (map (\<lambda>n. split n (CHR ''/'')) names). prefix s b}))"
proof -
  let ?segs = "map (\<lambda>n. split n (CHR ''/'')) names"
  have len: "length files = length names"
    using names by (rule map_eq_imp_length_eq)
  have "map path_parts files = map Inr ?segs"
  proof (rule nth_equalityI)
    show "length (map path_parts files) = length (map Inr ?segs)" using len by simp
  next
    fix i assume "i < length (map path_parts files)"
    then have i: "i < length files" by simp
    have "map (\<lambda>f. dict_get f ''name'') files ! i = map (\<lambda>n. Some (PStr n)) names ! i"
      using names by simp
    then have "dict_get (files ! i) ''name'' = Some (PStr (names ! i))"
      using i len by simp
    then have "path_parts (files ! i) = Inr (split (names ! i) (CHR ''/''))"
      by (rule path_parts_name)
    then show "map path_parts files ! i = map Inr ?segs ! i"
      using i len by simp
  qed
  moreover have "\<forall>s\<in>set ?segs. s \<noteq> []" by (auto simp: split_nonempty)
  moreover have "unique_keys (Dir [])" by simp
  moreover have "populated_list []" by simp
  moreover have "\<forall>p\<in>{q. lookup_path (Dir []) q = Some Leaf} \<union> set ?segs.
             \<forall>q\<in>{q. lookup_path (Dir []) q = Some Leaf} \<union> set ?segs. \<not> strict_prefix p q"
    using pf by (simp add: prefix_free_def empty_dir_no_leaf)
  ultimately obtain kvs where run: "build_tree (Dir []) files = Inr (Dir kvs)"
    and uk: "unique_keys (Dir kvs)" and pop: "populated_list kvs"
    and L: "{q. lookup_path (Dir kvs) q = Some Leaf} =
              {q. lookup_path (Dir []) q = Some Leaf} \<union> set ?segs"
    using build_tree_prefix_free [of files ?segs "[]"] by blast
  have paths: "set (leaf_paths (Dir kvs)) = set ?segs"
    using leaf_paths_lookup(1) [OF uk] L by (auto simp: empty_dir_no_leaf)
  have "inj_on (\<lambda>n. split n (CHR ''/'')) (set names)"
    by (rule inj_onI) (rule split_inj)
  then have "card (set ?segs) = card (set names)"
    by (simp add: card_image)
  moreover have "leaf_count (Dir kvs) = card (set (leaf_paths (Dir kvs)))"
    using leaf_paths_distinct(1) [OF uk] by (simp add: leaf_count_length(1) distinct_card)
  ultimately have count: "leaf_count (Dir kvs) = card (set names)"
    using paths by simp
  have depth: "length b = Max (length ` {s \<in> set ?segs. prefix s b})"
    if "b \<in> set (leaf_paths (Dir kvs))" for b
  proof -
    from that paths have b: "b \<in> set ?segs" by simp
    have "{s \<in> set ?segs. prefix s b} = {b}"
    proof (intro set_eqI iffI)
      fix s assume "s \<in> {s \<in> set ?segs. prefix s b}"
      then have "s \<in> set ?segs" and "prefix s b" by simp_all
      moreover have "\<not> strict_prefix s b"
        using pf b \<open>s \<in> set ?segs\<close> unfolding prefix_free_def by blast
      ultimately show "s \<in> {b}" by (auto simp: strict_prefix_def)
    next
      fix s assume "s \<in> {b}"
      then show "s \<in> {s \<in> set ?segs. prefix s b}" using b by simp
    qed
    then show ?thesis by simp
  qed
  show ?thesis
    using run count paths pop depth unfolding generate_file_tree_def by blast
qed

theorem generate_file_tree_prefix_free_witness:
  "\<exists>kvs. generate_file_tree [[(''name'', PStr ''src/main.py'')], [(''name'', PStr ''src/lib/util.py'')],
                               [(''name'', PStr ''README.md'')], [(''name'', PStr ''src/main.py'')]] =
            Inr (Dir kvs) \<and>
         leaf_count (Dir kvs) = 3 \<and>
         set (leaf_paths (Dir kvs)) =
           {[''src'', ''main.py''], [''src'', ''lib'', ''util.py''], [''README.md'']}"
proof -
  let ?files = "[[(''name'', PStr ''src/main.py'')], [(''name'', PStr ''src/lib/util.py'')],
                 [(''name'', PStr ''README.md'')], [(''name'', PStr ''src/main.py'')]]"
  let ?names = "[''src/main.py'', ''src/lib/util.py'', ''README.md'', ''src/main.py'']"
  have 1: "map (\<lambda>f. dict_get f ''name'') ?files = map (\<lambda>n. Some (PStr n)) ?names"
    by simp
  have segs: "map (\<lambda>n. split n (CHR ''/'')) ?names =
          [[''src'', ''main.py''], [''src'', ''lib'', ''util.py''], [''README.md''], [''src'', ''main.py'']]"
    by (simp add: split_def)
  have 2: "prefix_free (map (\<lambda>n. split n (CHR ''/'')) ?names)"
    unfolding segs by (simp add: prefix_free_def)
  have 3: "card (set ?names) = 3" by (subst card_set) simp
  from generate_file_tree_prefix_free [OF 1 2]
  obtain kvs where a: "generate_file_tree ?files = Inr (Dir kvs)"
    and b: "leaf_count (Dir kvs) = card (set ?names)"
    and c: "set (leaf_paths (Dir kvs)) = set (map (\<lambda>n. split n (CHR ''/'')) ?names)"
    by blast
  from b 3 have "leaf_count (Dir kvs) = 3" by (rule trans)
  moreover from c have "set (leaf_paths (Dir kvs)) =
      {[''src'', ''main.py''], [''src'', ''lib'', ''util.py''], [''README.md'']}"
    unfolding segs by auto
  ultimately show ?thesis using a by blast
qed

text \<open>
  Claim C1 as stated fails when a path continues another one. For \<^verbatim>\<open>a/b\<close> followed by
  \<^verbatim>\<open>a\<close>, the second record overwrites the directory \<^verbatim>\<open>a\<close> with a leaf marker: the tree has
  one leaf entry, the input two distinct paths.
\<close>

theorem generate_file_tree_leaf_count_counterexample:
  "generate_file_tree [[(''name'', PStr ''a/b'')], [(''name'', PStr ''a'')]] =
     Inr (Dir [(''a'', Leaf)]) \<and>
   leaf_count (Dir [(''a'', Leaf)]) = 1 \<and>
   card (set [''a/b'', ''a'']) = 2"
  by (simp add: generate_file_tree_def path_parts_def split_def)


subsection \<open>What one record does to the tree\<close>

text \<open>
  Claim C4, as the code has it. Let \<open>tree\<close> be built from the records so far, and let the
  next record have a string \<^verbatim>\<open>name\<close> such that no leaf marker of \<open>tree\<close> lies on the way to
  its last segment. Then the builder goes on with a tree in which the full path leads to a
  leaf marker, every shorter beginning of it (the root included) leads to a directory, and
  every key sequence that leaves the path leads where it led before: what was there is
  reused, not rebuilt. The leaf marker is not the empty directory. \<^verbatim>\<open>a/b\<close>, \<^verbatim>\<open>a/c\<close> give
  \<^verbatim>\<open>{a: {b: None, c: None}}\<close>, and \<^verbatim>\<open>x\<close> gives \<^verbatim>\<open>{x: None}\<close>.
\<close>

theorem generate_file_tree_record_step:
  "(generate_file_tree pre = Inr tree \<and>
    dict_get file_info ''name'' = Some (PStr name) \<and>
    (\<forall>q. strict_prefix q (split name (CHR ''/'')) \<longrightarrow> lookup_path tree q \<noteq> Some Leaf) \<longrightarrow>
    (\<exists>tree'. generate_file_tree (pre @ [file_info]) = Inr tree' \<and>
       lookup_path tree' (split name (CHR ''/'')) = Some Leaf \<and>
       (\<forall>q. strict_prefix q (split name (CHR ''/'')) \<longrightarrow>
          (\<exists>kvs. lookup_path tree' q = Some (Dir kvs))) \<and>
       (\<forall>q. \<not> prefix q (split name (CHR ''/'')) \<and> \<not> prefix (split name (CHR ''/'')) q \<longrightarrow>
          lookup_path tree' q = lookup_path tree q))) \<and>
   Leaf \<noteq> Dir [] \<and>
   generate_file_tree [[(''name'', PStr ''a/b'')], [(''name'', PStr ''a/c'')]] =
     Inr (Dir [(''a'', Dir [(''b'', Leaf), (''c'', Leaf)])]) \<and>
   generate_file_tree [[(''name'', PStr ''x'')]] = Inr (Dir [(''x'', Leaf)])"
proof -
  let ?parts = "split name (CHR ''/'')"
  have step: "\<exists>tree'. generate_file_tree (pre @ [file_info]) = Inr tree' \<and>
       lookup_path tree' ?parts = Some Leaf \<and>
       (\<forall>q. strict_prefix q ?parts \<longrightarrow> (\<exists>kvs. lookup_path tree' q = Some (Dir kvs))) \<and>
       (\<forall>q. \<not> prefix q ?parts \<and> \<not> prefix ?parts q \<longrightarrow>
          lookup_path tree' q = lookup_path tree q)"
    if built: "generate_file_tree pre = Inr tree"
      and name: "dict_get file_info ''name'' = Some (PStr name)"
      and clear: "\<forall>q. strict_prefix q ?parts \<longrightarrow> lookup_path tree q \<noteq> Some Leaf"
  proof -
    from clear obtain tree' where add: "add_path tree ?parts = Inr tree'"
      using add_path_succeeds by blast
    have parts: "path_parts file_info = Inr ?parts"
      using name by (rule path_parts_name)
    have "generate_file_tree (pre @ [file_info]) = Inr tree'"
      using built parts add by (simp add: generate_file_tree_def build_tree_append)
    moreover have "lookup_path tree' ?parts = Some Leaf"
      using add split_nonempty by (rule add_path_lookup_self)
    moreover have "\<forall>q. strict_prefix q ?parts \<longrightarrow> (\<exists>kvs. lookup_path tree' q = Some (Dir kvs))"
      using add by (blast dest: add_path_lookup_above)
    moreover have "\<forall>q. \<not> prefix q ?parts \<and> \<not> prefix ?parts q \<longrightarrow>
          lookup_path tree' q = lookup_path tree q"
      using add by (blast intro: add_path_lookup_other)
    ultimately show ?thesis by blast
  qed
  have distinct_marker: "Leaf \<noteq> Dir []" by simp
  have ex1: "generate_file_tree [[(''name'', PStr ''a/b'')], [(''name'', PStr ''a/c'')]] =
      Inr (Dir [(''a'', Dir [(''b'', Leaf), (''c'', Leaf)])])"
    by (simp add: generate_file_tree_def path_parts_def split_def)
  have ex2: "generate_file_tree [[(''name'', PStr ''x'')]] = Inr (Dir [(''x'', Leaf)])"
    by (simp add: generate_file_tree_def path_parts_def split_def)
  from step distinct_marker ex1 ex2 show ?thesis by blast
qed

theorem generate_file_tree_record_step_witness:
  "\<exists>tree'. generate_file_tree ([[(''name'', PStr ''src/main.py'')]] @
                                    [[(''name'', PStr ''src/lib/util.py''), (''format'', PStr ''TEXT'')]]) =
             Inr tree' \<and>
           lookup_path tree' [''src'', ''lib'', ''util.py''] = Some Leaf \<and>
           (\<exists>kvs. lookup_path tree' [''src'', ''lib''] = Some (Dir kvs)) \<and>
           lookup_path tree' [''src'', ''main.py''] = Some Leaf"
proof -
  let ?pre = "[[(''name'', PStr ''src/main.py'')]]"
  let ?tree = "Dir [(''src'', Dir [(''main.py'', Leaf)])]"
  let ?rec = "[(''name'', PStr ''src/lib/util.py''), (''format'', PStr ''TEXT'')]"
  have parts: "split ''src/lib/util.py'' (CHR ''/'') = [''src'', ''lib'', ''util.py'']"
    by (simp add: split_def)
  have 1: "generate_file_tree ?pre = Inr ?tree"
    by (simp add: generate_file_tree_def path_parts_def split_def)
  have 2: "dict_get ?rec ''name'' = Some (PStr ''src/lib/util.py'')" by simp
  have 3: "\<forall>q. strict_prefix q (split ''src/lib/util.py'' (CHR ''/'')) \<longrightarrow>
             lookup_path ?tree q \<noteq> Some Leaf"
  proof (intro allI impI)
    fix q assume "strict_prefix q (split ''src/lib/util.py'' (CHR ''/''))"
    then have "q = [] \<or> q = [''src''] \<or> q = [''src'', ''lib'']"
      unfolding parts by (auto simp: strict_prefix_def prefix_Cons)
    then show "lookup_path ?tree q \<noteq> Some Leaf" by auto
  qed
  from generate_file_tree_record_step [of ?pre ?tree ?rec "''src/lib/util.py''"] 1 2 3
  obtain tree' where a: "generate_file_tree (?pre @ [?rec]) = Inr tree'"
    and b: "lookup_path tree' (split ''src/lib/util.py'' (CHR ''/'')) = Some Leaf"
    and c: "\<forall>q. strict_prefix q (split ''src/lib/util.py'' (CHR ''/'')) \<longrightarrow>
              (\<exists>kvs. lookup_path tree' q = Some (Dir kvs))"
    and d: "\<forall>q. \<not> prefix q (split ''src/lib/util.py'' (CHR ''/'')) \<and>
                \<not> prefix (split ''src/lib/util.py'' (CHR ''/'')) q \<longrightarrow>
              lookup_path tree' q = lookup_path ?tree q"
    by blast
  have "strict_prefix [''src'', ''lib''] (split ''src/lib/util.py'' (CHR ''/''))"
    unfolding parts by simp
  with c have c': "\<exists>kvs. lookup_path tree' [''src'', ''lib''] = Some (Dir kvs)" by blast
  have "\<not> prefix [''src'', ''main.py''] (split ''src/lib/util.py'' (CHR ''/'')) \<and>
        \<not> prefix (split ''src/lib/util.py'' (CHR ''/'')) [''src'', ''main.py'']"
    unfolding parts by simp
  with d have "lookup_path tree' [''src'', ''main.py''] = lookup_path ?tree [''src'', ''main.py'']"
    by blast
  then have d': "lookup_path tree' [''src'', ''main.py''] = Some Leaf" by simp
  from a b c' d' show ?thesis unfolding parts by blast
qed

text \<open>
  Claim C4 as stated, for every record, fails where a leaf marker lies on the way: after
  \<^verbatim>\<open>a\<close>, the record \<^verbatim>\<open>a/b\<close> walks into the leaf marker of \<^verbatim>\<open>a\<close> and its last segment is never
  recorded; the builder raises.
\<close>

theorem generate_file_tree_record_step_counterexample:
  "generate_file_tree [[(''name'', PStr ''a'')]] = Inr (Dir [(''a'', Leaf)]) \<and>
   generate_file_tree [[(''name'', PStr ''a'')], [(''name'', PStr ''a/b'')]] = Inl TypeError"
  by (simp add: generate_file_tree_def path_parts_def split_def)

section \<open>The pricing selector\<close>

lemma select_pricing_scan:
  "map (\<lambda>e. py_get e ''startedAt'') entries = map (\<lambda>t. Inr (PTime t)) ts \<Longrightarrow>
   select_pricing (\<lambda>k. now) k current_pricing entries =
     Inr (if length (takeWhile (\<lambda>t. t \<le> now) ts) = 0 then current_pricing
          else entries ! (length (takeWhile (\<lambda>t. t \<le> now) ts) - 1))"
proof (induction entries arbitrary: ts k current_pricing)
  case Nil
  then show ?case by simp
next
  case (Cons e es)
  from Cons.prems obtain t ts' where ts: "ts = t # ts'"
    and e: "py_get e ''startedAt'' = Inr (PTime t)"
    and es: "map (\<lambda>e. py_get e ''startedAt'') es = map (\<lambda>t. Inr (PTime t)) ts'"
    by (cases ts) auto
  show ?case
  proof (cases "t \<le> now")
    case True
    then show ?thesis
      using e ts Cons.IH [OF es, of "Suc k" e] by (simp add: nth_Cons')
  next
    case False
    then show ?thesis using e ts by simp
  qed
qed

lemma sorted_takeWhile_last:
  assumes "sorted (ts :: int list)" and "\<exists>t\<in>set ts. t \<le> now"
      and n: "n = length (takeWhile (\<lambda>t. t \<le> now) ts)"
  shows "0 < n \<and> n \<le> length ts \<and> (\<forall>j<length ts. ts ! j \<le> now \<longleftrightarrow> j < n)"
proof -
  have le: "n \<le> length ts" unfolding n by (rule length_takeWhile_le)
  have below: "ts ! j \<le> now" if "j < n" for j
  proof -
    have "takeWhile (\<lambda>t. t \<le> now) ts ! j \<in> set (takeWhile (\<lambda>t. t \<le> now) ts)"
      using that unfolding n by (rule nth_mem)
    then have "takeWhile (\<lambda>t. t \<le> now) ts ! j \<le> now"
      by (blast dest: set_takeWhileD)
    then show ?thesis using that unfolding n by (simp add: takeWhile_nth)
  qed
  have above: "now < ts ! j" if "n \<le> j" "j < length ts" for j
  proof -
    have "n < length ts" using that by simp
    then have "\<not> ts ! n \<le> now" unfolding n by (rule nth_length_takeWhile)
    moreover have "ts ! n \<le> ts ! j"
      using assms(1) that by (simp add: sorted_iff_nth_mono)
    ultimately show ?thesis by simp
  qed
  have "0 < n"
  proof (rule ccontr)
    assume "\<not> 0 < n"
    then have "\<forall>j<length ts. now < ts ! j" using above by simp
    then have "\<forall>t\<in>set ts. now < t" by (auto simp: in_set_conv_nth)
    with assms(2) show False by auto
  qed
  moreover have "\<forall>j<length ts. ts ! j \<le> now \<longleftrightarrow> j < n"
    using below above by (metis not_le)
  ultimately show ?thesis using le by simp
qed

lemma tool_pricing_reaches_loop:
  assumes "get_apify_token env = Inr token"
      and "actor_get (new_client token) (PStr actor_id) = Inr (PDict actor)"
      and "dict_get actor ''pricingInfos'' = Some (PList entries)"
      and "entries \<noteq> []"
  shows "tool_get_actor_pricing_information model_validate env new_client clock actor_id =
           (case select_pricing clock 0 PNone entries of
              Inl e \<Rightarrow> Inl e
            | Inr current_pricing \<Rightarrow> model_validate current_pricing)"
proof -
  have "actor \<noteq> []" using assms(3) by auto
  then show ?thesis
    using assms by (simp add: tool_get_actor_pricing_information_def py_get_def)
qed

text \<open>
  Claim C2. Let the actor be found, let its \<^verbatim>\<open>pricingInfos\<close> be the list \<open>entries\<close> whose
  \<^verbatim>\<open>startedAt\<close> timestamps \<open>ts\<close> ascend, let the clock read \<open>now\<close> throughout, and let some
  entry have started by \<open>now\<close>. Then the tool returns (as \<^verbatim>\<open>PricingInfo\<close> validates it) the
  entry at an index \<open>i\<close> whose start is not after \<open>now\<close>; every entry that has started by
  \<open>now\<close> stands at or before \<open>i\<close> and started no later than it; and every entry behind \<open>i\<close>
  starts after \<open>now\<close>: the scan stopped at the first of them and kept its predecessor.
\<close>

theorem pricing_selector_latest_not_after_now:
  assumes token: "get_apify_token env = Inr token"
      and actor: "actor_get (new_client token) (PStr actor_id) = Inr (PDict actor)"
      and infos: "dict_get actor ''pricingInfos'' = Some (PList entries)"
      and started: "map (\<lambda>e. py_get e ''startedAt'') entries = map (\<lambda>t. Inr (PTime t)) ts"
      and sorted: "sorted ts"
      and some: "\<exists>t\<in>set ts. t \<le> now"
  shows "\<exists>i<length entries.
           tool_get_actor_pricing_information model_validate env new_client (\<lambda>k. now) actor_id =
             model_validate (entries ! i) \<and>
           ts ! i \<le> now \<and>
           (\<forall>j<length entries. ts ! j \<le> now \<longrightarrow> j \<le> i \<and> ts ! j \<le> ts ! i) \<and>
           (\<forall>j<length entries. i < j \<longrightarrow> now < ts ! j)"
proof -
  define n where "n = length (takeWhile (\<lambda>t. t \<le> now) ts)"
  have len: "length entries = length ts"
    using started by (rule map_eq_imp_length_eq)
  from sorted_takeWhile_last [OF sorted some n_def]
  have pos: "0 < n" and le: "n \<le> length ts"
    and iff: "\<forall>j<length ts. ts ! j \<le> now \<longleftrightarrow> j < n"
    by blast+
  have ne: "entries \<noteq> []" using some len by auto
  have "select_pricing (\<lambda>k. now) 0 PNone entries =
          Inr (if n = 0 then PNone else entries ! (n - 1))"
    unfolding n_def using started by (rule select_pricing_scan)
  then have loop: "select_pricing (\<lambda>k. now) 0 PNone entries = Inr (entries ! (n - 1))"
    using pos by simp
  have run: "tool_get_actor_pricing_information model_validate env new_client (\<lambda>k. now) actor_id =
               model_validate (entries ! (n - 1))"
    using tool_pricing_reaches_loop [of env token new_client actor_id actor entries model_validate "\<lambda>k. now"]
      token actor infos ne loop by simp
  have i: "n - 1 < length entries" using pos le len by arith
  have "n - 1 < n" using pos by arith
  with iff i len have at: "ts ! (n - 1) \<le> now" by simp
  have before: "j \<le> n - 1 \<and> ts ! j \<le> ts ! (n - 1)"
    if "j < length entries" "ts ! j \<le> now" for j
  proof -
    from that iff len have "j < n" by simp
    then have "j \<le> n - 1" by arith
    moreover from this have "ts ! j \<le> ts ! (n - 1)"
      using sorted i len by (simp add: sorted_iff_nth_mono)
    ultimately show ?thesis by simp
  qed
  have after: "now < ts ! j" if "j < length entries" "n - 1 < j" for j
  proof -
    from that have "\<not> j < n" by arith
    with iff that len show ?thesis by auto
  qed
  from i run at before after show ?thesis by blast
qed

text \<open>
  The example of claim C2 for every instant \<open>T\<close>: with starts at \<open>T - 10\<close>, \<open>T - 5\<close> and
  \<open>T + 5\<close> and the clock at \<open>T\<close>, the entry of \<open>T - 5\<close> is returned.
\<close>

lemma pricing_selector_example:
  "tool_get_actor_pricing_information Inr (Some ''token'')
     (\<lambda>token. \<lparr>actor_get = (\<lambda>x. Inr (PDict [(''id'', PStr ''abc123''),
         (''pricingInfos'', PList [PDict [(''startedAt'', PTime (T - 10)), (''pricePerUnitUsd'', PInt 1)],
                                   PDict [(''startedAt'', PTime (T - 5)), (''pricePerUnitUsd'', PInt 2)],
                                   PDict [(''startedAt'', PTime (T + 5)), (''pricePerUnitUsd'', PInt 3)]])])),
        versions_list = (\<lambda>x. Inr []), store_list = (\<lambda>l k s. Inr [])\<rparr>)
     (\<lambda>k. T) ''apify/web-scraper'' =
   Inr (PDict [(''startedAt'', PTime (T - 5)), (''pricePerUnitUsd'', PInt 2)])"
  by (simp add: tool_get_actor_pricing_information_def get_apify_token_def py_get_def)


theorem pricing_selector_latest_not_after_now_witness:
  "tool_get_actor_pricing_information Inr (Some ''token'')
     (\<lambda>token. \<lparr>actor_get = (\<lambda>x. Inr (PDict [(''id'', PStr ''abc123''),
         (''pricingInfos'', PList [PDict [(''startedAt'', PTime 90), (''pricePerUnitUsd'', PInt 1)],
                                   PDict [(''startedAt'', PTime 95), (''pricePerUnitUsd'', PInt 2)],
                                   PDict [(''startedAt'', PTime 105), (''pricePerUnitUsd'', PInt 3)]])])),
        versions_list = (\<lambda>x. Inr []), store_list = (\<lambda>l k s. Inr [])\<rparr>)
     (\<lambda>k. 100) ''apify/web-scraper'' =
   Inr (PDict [(''startedAt'', PTime 95), (''pricePerUnitUsd'', PInt 2)])"
proof -
  let ?entries = "[PDict [(''startedAt'', PTime 90), (''pricePerUnitUsd'', PInt 1)],
                   PDict [(''startedAt'', PTime 95), (''pricePerUnitUsd'', PInt 2)],
                   PDict [(''startedAt'', PTime 105), (''pricePerUnitUsd'', PInt 3)]]"
  let ?actor = "[(''id'', PStr ''abc123''), (''pricingInfos'', PList ?entries)]"
  let ?client = "\<lambda>token :: string. \<lparr>actor_get = (\<lambda>x. Inr (PDict ?actor)),
        versions_list = (\<lambda>x. Inr []), store_list = (\<lambda>l k s. Inr [])\<rparr>"
  let ?ts = "[90, 95, 105 :: int]"
  have 1: "get_apify_token (Some ''token'') = Inr ''token''"
    by (simp add: get_apify_token_def)
  have 2: "actor_get (?client ''token'') (PStr ''apify/web-scraper'') = Inr (PDict ?actor)"
    by simp
  have 3: "dict_get ?actor ''pricingInfos'' = Some (PList ?entries)" by simp
  have 4: "map (\<lambda>e. py_get e ''startedAt'') ?entries = map (\<lambda>t. Inr (PTime t)) ?ts"
    by (simp add: py_get_def)
  have 5: "sorted ?ts" by simp
  have 6: "\<exists>t\<in>set ?ts. t \<le> 100" by simp
  from pricing_selector_latest_not_after_now [of "Some ''token''" "''token''" ?client
         "''apify/web-scraper''" ?actor ?entries ?ts 100 Inr, OF 1 2 3 4 5 6]
  obtain i where i: "i < length ?entries"
    and run: "tool_get_actor_pricing_information Inr (Some ''token'') ?client (\<lambda>k. 100)
                ''apify/web-scraper'' = Inr (?entries ! i)"
    and last: "\<forall>j<length ?entries. ?ts ! j \<le> 100 \<longrightarrow> j \<le> i \<and> ?ts ! j \<le> ?ts ! i"
    and at: "?ts ! i \<le> 100"
    by blast
  from last have "1 \<le> i" by (auto dest: spec [of _ 1])
  moreover from i at have "i \<noteq> 2" by auto
  ultimately have "i = 1" using i by simp
  with run show ?thesis by simp
qed




section \<open>The input schema of the search tool\<close>

text \<open>
  Claim C9, as the code has it. Every input the declared schema accepts has a limit from 1
  to 100 and an offset of at least 0. Every input with a limit below 1 or above 100, or with
  a negative offset, is rejected by the schema with a validation error. An input within the
  ranges is accepted as it is.
\<close>

theorem search_input_pagination_constraints:
  "(SearchRelatedActorsInput_validate search_arg limit_arg offset_arg = Inr args \<longrightarrow>
      1 \<le> limit args \<and> limit args \<le> 100 \<and> 0 \<le> offset args) \<and>
   ((\<exists>l. limit_arg = Some l \<and> (l < 1 \<or> 100 < l)) \<or> (\<exists>k. offset_arg = Some k \<and> k < 0) \<longrightarrow>
      SearchRelatedActorsInput_validate search_arg limit_arg offset_arg = Inl ValidationError) \<and>
   (1 \<le> l \<and> l \<le> 100 \<and> 0 \<le> k \<longrightarrow>
      SearchRelatedActorsInput_validate (Some s) (Some l) (Some k) =
        Inr \<lparr>search = s, limit = l, offset = k\<rparr>)"
proof -
  have accepted: "1 \<le> limit args \<and> limit args \<le> 100 \<and> 0 \<le> offset args"
    if "SearchRelatedActorsInput_validate search_arg limit_arg offset_arg = Inr args"
    using that
    by (cases search_arg; cases limit_arg; cases offset_arg)
       (auto simp: SearchRelatedActorsInput_validate_def split: if_splits)
  have rejected: "SearchRelatedActorsInput_validate search_arg limit_arg offset_arg =
      Inl ValidationError"
    if "(\<exists>l. limit_arg = Some l \<and> (l < 1 \<or> 100 < l)) \<or> (\<exists>k. offset_arg = Some k \<and> k < 0)"
    using that
    by (cases search_arg) (auto simp: SearchRelatedActorsInput_validate_def)
  have in_range: "SearchRelatedActorsInput_validate (Some s) (Some l) (Some k) =
        Inr \<lparr>search = s, limit = l, offset = k\<rparr>"
    if "1 \<le> l \<and> l \<le> 100 \<and> 0 \<le> k"
    using that by (simp add: SearchRelatedActorsInput_validate_def)
  from accepted rejected in_range show ?thesis by blast
qed

theorem search_input_pagination_constraints_witness:
  "SearchRelatedActorsInput_validate (Some ''web scraper'') (Some 0) None = Inl ValidationError \<and>
   SearchRelatedActorsInput_validate (Some ''web scraper'') (Some 101) (Some 0) = Inl ValidationError \<and>
   SearchRelatedActorsInput_validate (Some ''web scraper'') (Some 10) (Some (- 1)) = Inl ValidationError \<and>
   SearchRelatedActorsInput_validate (Some ''web scraper'') (Some 100) (Some 0) =
     Inr \<lparr>search = ''web scraper'', limit = 100, offset = 0\<rparr>"
proof -
  note c = search_input_pagination_constraints
             [where search_arg = "Some ''web scraper''" and s = "''web scraper''"
                and l = 100 and k = 0]
  have 1: "(\<exists>l. Some (0::int) = Some l \<and> (l < 1 \<or> 100 < l)) \<or>
           (\<exists>k. (None :: int option) = Some k \<and> k < 0)" by simp
  have 2: "(\<exists>l. Some (101::int) = Some l \<and> (l < 1 \<or> 100 < l)) \<or>
           (\<exists>k. Some (0::int) = Some k \<and> k < 0)" by simp
  have 3: "(\<exists>l. Some (10::int) = Some l \<and> (l < 1 \<or> 100 < l)) \<or>
           (\<exists>k. Some (- 1 :: int) = Some k \<and> k < 0)" by simp
  have 4: "(1::int) \<le> 100 \<and> (100::int) \<le> 100 \<and> (0::int) \<le> 0" by simp
  from c [of "Some 0" None] 1
  have a: "SearchRelatedActorsInput_validate (Some ''web scraper'') (Some 0) None =
             Inl ValidationError" by blast
  from c [of "Some 101" "Some 0"] 2
  have b: "SearchRelatedActorsInput_validate (Some ''web scraper'') (Some 101) (Some 0) =
             Inl ValidationError" by blast
  from c [of "Some 10" "Some (- 1)"] 3
  have d: "SearchRelatedActorsInput_validate (Some ''web scraper'') (Some 10) (Some (- 1)) =
             Inl ValidationError" by blast
  from c [of "Some 100" "Some 0"] 4
  have e: "SearchRelatedActorsInput_validate (Some ''web scraper'') (Some 100) (Some 0) =
             Inr \<lparr>search = ''web scraper'', limit = 100, offset = 0\<rparr>" by blast
  from a b d e show ?thesis by blast
qed

text \<open>
  Claim C9 as stated fails for the adapter: \<^verbatim>\<open>_run\<close> applies no check before the remote
  call. With a limit of 101 and an offset of -1, which the schema rejects, it calls the store
  with exactly these values (the client here answers with the limit and the offset it was
  given).
\<close>

theorem search_tool_run_unchecked_counterexample:
  "SearchRelatedActorsInput_validate (Some ''web scraper'') (Some 101) (Some (- 1)) =
     Inl ValidationError \<and>
   SearchRelatedActorsTool_run Inr (Some ''token'')
     (\<lambda>token. \<lparr>actor_get = (\<lambda>x. Inr PNone), versions_list = (\<lambda>x. Inr []),
                 store_list = (\<lambda>l k s. Inr [PInt l, PInt k])\<rparr>)
     ''web scraper'' 101 (- 1) =
     Inr (PList [PInt 101, PInt (- 1)])"
  by (simp add: SearchRelatedActorsInput_validate_def SearchRelatedActorsTool_run_def
                get_apify_token_def)

end
